theory Spec2Isabelle
  imports Complex_Main
begin

section \<open>JavaScript values met by the reward engine\<close>

text \<open>
  The fields of the payment gateway's JSON payload are arbitrary JavaScript values. Only
  their truthiness and strict equality with \<open>true\<close> matter to \<open>index.js\<close>, so a number
  is kept as an integer and every object or array is the one opaque value \<open>JObj\<close>.
\<close>

datatype jsval = JUndefined | JNull | JBool bool | JNum int | JStr string | JObj

fun truthy :: "jsval \<Rightarrow> bool" where
  "truthy JUndefined = False"
| "truthy JNull = False"
| "truthy (JBool b) = b"
| "truthy (JNum n) = (n \<noteq> 0)"
| "truthy (JStr s) = (s \<noteq> [])"
| "truthy JObj = True"

text \<open>The operator \<open>a || b\<close>.\<close>

definition js_or :: "jsval \<Rightarrow> jsval \<Rightarrow> jsval" where
  "js_or a b = (if truthy a then a else b)"

section \<open>The invite snapshot cache\<close>

text \<open>
  An invite as the chat platform returns it: its code, its use counter (which may be
  \<open>null\<close>) and the id of the owning account (\<open>inviter\<close> may be \<open>null\<close>).
\<close>

record invite =
  code :: string
  uses :: "nat option"
  inviter :: "string option"

text \<open>
  A JavaScript \<open>Map\<close> from invite code to use count. Iteration follows insertion order
  and \<open>set\<close> on a key already present keeps the key's position, so the map is an
  association list.
\<close>

type_synonym snapshot = "(string \<times> nat) list"

fun Map_set :: "snapshot \<Rightarrow> string \<Rightarrow> nat \<Rightarrow> snapshot" where
  "Map_set [] k v = [(k, v)]"
| "Map_set ((k', v') # m) k v = (if k' = k then (k, v) # m else (k', v') # Map_set m k v)"

definition Map_get :: "snapshot \<Rightarrow> string \<Rightarrow> nat option" where
  "Map_get m k = map_of m k"

definition Map_delete :: "snapshot \<Rightarrow> string \<Rightarrow> snapshot" where
  "Map_delete m k = filter (\<lambda>e. fst e \<noteq> k) m"

text \<open>\<open>inv.uses || 0\<close> and \<open>oldMap.get(code) || 0\<close>.\<close>

definition uses_or_0 :: "nat option \<Rightarrow> nat" where
  "uses_or_0 u = (case u of None \<Rightarrow> 0 | Some n \<Rightarrow> n)"

text \<open>The loop \<open>for (const inv of fetched) map.set(inv.code, inv.uses || 0)\<close>.\<close>

fun set_all :: "snapshot \<Rightarrow> invite list \<Rightarrow> snapshot" where
  "set_all m [] = m"
| "set_all m (i # rest) = set_all (Map_set m (code i) (uses_or_0 (uses i))) rest"

text \<open>\<open>invitesCache\<close>: guild id to snapshot; the outer map is never iterated.\<close>

type_synonym cache = "string \<Rightarrow> snapshot option"

text \<open>
  \<open>refreshGuildInvites\<close>. The argument \<open>fetched\<close> is what \<open>guild.invites.fetch()\<close>
  delivered, \<open>None\<close> when it threw.
\<close>

definition refreshGuildInvites :: "string \<Rightarrow> invite list option \<Rightarrow> cache \<Rightarrow> cache \<times> snapshot" where
  "refreshGuildInvites guildId fetched cache =
     (case fetched of
        Some invs \<Rightarrow> (let m = set_all [] invs in (cache(guildId \<mapsto> m), m))
      | None \<Rightarrow> (cache(guildId \<mapsto> []), []))"

text \<open>The \<open>inviteCreate\<close> and \<open>inviteDelete\<close> handlers; \<open>invite.guild\<close> may be \<open>null\<close>.\<close>

definition inviteCreate :: "string option \<Rightarrow> string \<Rightarrow> nat option \<Rightarrow> cache \<Rightarrow> cache" where
  "inviteCreate guild c u cache =
     (case guild of
        None \<Rightarrow> cache
      | Some g \<Rightarrow>
          (let m = (case cache g of Some m0 \<Rightarrow> m0 | None \<Rightarrow> [])
           in cache(g \<mapsto> Map_set m c (uses_or_0 u))))"

definition inviteDelete :: "string option \<Rightarrow> string \<Rightarrow> cache \<Rightarrow> cache" where
  "inviteDelete guild c cache =
     (case guild of
        None \<Rightarrow> cache
      | Some g \<Rightarrow>
          (let m = (case cache g of Some m0 \<Rightarrow> m0 | None \<Rightarrow> [])
           in cache(g \<mapsto> Map_delete m c)))"

section \<open>Join attribution\<close>

text \<open>The object \<open>used = { code, inviterId }\<close>; \<open>inviterId\<close> is \<open>null\<close> without an owner.\<close>

record used =
  used_code :: string
  used_inviterId :: "string option"

text \<open>
  \<open>fetchedArr.find(i => i.code === code)\<close> followed by
  \<open>inv && inv.inviter ? String(inv.inviter.id) : null\<close>.
\<close>

definition inviter_of :: "invite list \<Rightarrow> string \<Rightarrow> string option" where
  "inviter_of fetchedArr c =
     (case find (\<lambda>i. code i = c) fetchedArr of None \<Rightarrow> None | Some i \<Rightarrow> inviter i)"

text \<open>
  The scan \<open>for (const [code, uses] of newMap.entries())\<close> with its \<open>break\<close> at the
  first entry whose count exceeds the cached one.
\<close>

fun find_used :: "snapshot \<Rightarrow> invite list \<Rightarrow> snapshot \<Rightarrow> used option" where
  "find_used oldMap fetchedArr [] = None"
| "find_used oldMap fetchedArr ((c, u) # entries) =
     (if u > uses_or_0 (Map_get oldMap c)
      then Some \<lparr>used_code = c, used_inviterId = inviter_of fetchedArr c\<rparr>
      else find_used oldMap fetchedArr entries)"

section \<open>The reward ledger\<close>

text \<open>
  A row of table \<open>invite_rewards\<close>. The autoincrement column \<open>id\<close> is never read by the
  program and is left out; \<open>paid\<close> is the integer column (0 pending, 1 paid), \<open>None\<close> is
  SQL \<open>NULL\<close>, and \<open>payment_tx\<close> holds the JavaScript value bound to the statement.
\<close>

record reward_row =
  guild_id :: string
  invite_code :: "string option"
  inviter_id :: string
  joined_id :: string
  joined_at :: nat
  paid :: nat
  paid_at :: "nat option"
  payment_tx :: "jsval option"

type_synonym ledger = "reward_row list"

text \<open>
  The four SQL statements, on a table kept in insertion order. The \<open>SELECT\<close> has no
  \<open>ORDER BY\<close>; it is taken to return the rows in table order.
\<close>

definition insert_or_ignore :: "reward_row \<Rightarrow> ledger \<Rightarrow> ledger" where
  "insert_or_ignore r t = (if joined_id r \<in> set (map joined_id t) then t else t @ [r])"

definition update_paid :: "nat \<Rightarrow> jsval option \<Rightarrow> string \<Rightarrow> ledger \<Rightarrow> ledger" where
  "update_paid now tx j t =
     map (\<lambda>r. if joined_id r = j then r\<lparr>paid := 1, paid_at := Some now, payment_tx := tx\<rparr> else r) t"

definition delete_joined :: "string \<Rightarrow> ledger \<Rightarrow> ledger" where
  "delete_joined j t = filter (\<lambda>r. joined_id r \<noteq> j) t"

definition select_unpaid :: "nat \<Rightarrow> ledger \<Rightarrow> reward_row list" where
  "select_unpaid limit t = take limit (filter (\<lambda>r. paid r = 0) t)"

text \<open>
  \<open>db.run\<close> and \<open>db.all\<close>: the flag \<open>io\<close> says whether the storage engine ran the
  statement; when it did not, the call rejects.
\<close>

datatype db_error = SqliteError

definition db_run :: "bool \<Rightarrow> (ledger \<Rightarrow> ledger) \<Rightarrow> ledger \<Rightarrow> db_error + ledger" where
  "db_run io stmt t = (if io then Inr (stmt t) else Inl SqliteError)"

definition db_all :: "bool \<Rightarrow> (ledger \<Rightarrow> reward_row list) \<Rightarrow> ledger \<Rightarrow> db_error + reward_row list" where
  "db_all io query t = (if io then Inr (query t) else Inl SqliteError)"

text \<open>
  The helpers of \<open>index.js\<close>. Each wraps its statement in \<open>try/catch\<close> and only logs a
  rejected call. \<open>inviteCode || null\<close> turns the empty code into \<open>NULL\<close>,
  \<open>txId || null\<close> every falsy transaction id.
\<close>

definition addPendingInviteRecord ::
  "bool \<Rightarrow> nat \<Rightarrow> string \<Rightarrow> string \<Rightarrow> string \<Rightarrow> string \<Rightarrow> ledger \<Rightarrow> ledger" where
  "addPendingInviteRecord io now guildId inviteCode inviterId joinedId t =
     (case db_run io
             (insert_or_ignore
                \<lparr>guild_id = guildId,
                 invite_code = (if inviteCode = [] then None else Some inviteCode),
                 inviter_id = inviterId, joined_id = joinedId, joined_at = now,
                 paid = 0, paid_at = None, payment_tx = None\<rparr>) t of
        Inr t' \<Rightarrow> t'
      | Inl e \<Rightarrow> t)"

definition markPaid :: "bool \<Rightarrow> nat \<Rightarrow> string \<Rightarrow> jsval \<Rightarrow> ledger \<Rightarrow> ledger" where
  "markPaid io now joinedId tx t =
     (case db_run io (update_paid now (if truthy tx then Some tx else None) joinedId) t of
        Inr t' \<Rightarrow> t'
      | Inl e \<Rightarrow> t)"

definition removeInviteRecord :: "bool \<Rightarrow> string \<Rightarrow> ledger \<Rightarrow> ledger" where
  "removeInviteRecord io joinedId t =
     (case db_run io (delete_joined joinedId) t of Inr t' \<Rightarrow> t' | Inl e \<Rightarrow> t)"

definition getUnpaidInvites :: "bool \<Rightarrow> nat \<Rightarrow> ledger \<Rightarrow> reward_row list" where
  "getUnpaidInvites io limit t =
     (case db_all io (select_unpaid limit) t of Inr rows \<Rightarrow> rows | Inl e \<Rightarrow> [])"

section \<open>The payment gateway adapter\<close>

text \<open>
  What \<open>axios.post\<close> did: it threw (network failure, timeout, or a status outside 2xx,
  which axios rejects), or it resolved with \<open>resp.data\<close>, \<open>None\<close> when that is falsy (an
  empty body). A truthy \<open>resp.data\<close> is read through three fields, \<open>JUndefined\<close> when
  absent.
\<close>

record payload =
  success :: jsval
  txId :: jsval
  tx_id :: jsval

datatype http_outcome = Threw | Resp "payload option"

text \<open>
  The three objects \<open>payViaCard\<close> returns, \<open>{success: true, txId}\<close>,
  \<open>{success: true, data}\<close> and \<open>{success: true}\<close>, and the error it throws.
\<close>

datatype pay_result = PayTx jsval | PayData payload | PayBare

datatype pay_error = PaymentFailed

definition payViaCard :: "http_outcome \<Rightarrow> pay_error + pay_result" where
  "payViaCard h =
     (case h of
        Threw \<Rightarrow> Inl PaymentFailed
      | Resp None \<Rightarrow> Inr PayBare
      | Resp (Some d) \<Rightarrow>
          (if success d = JBool True
           then Inr (PayTx (js_or (js_or (txId d) (tx_id d)) JNull))
           else Inr (PayData d)))"

text \<open>
  The line of \<open>periodicCheck\<close> that picks the transaction id out of the result:
  \<open>payRes.txId\<close> if truthy, else \<open>payRes.data.txId || payRes.data.tx_id\<close> if truthy, else
  \<open>null\<close>.
\<close>

definition txId_of :: "pay_result \<Rightarrow> jsval" where
  "txId_of p =
     (case p of
        PayTx t \<Rightarrow> (if truthy t then t else JNull)
      | PayData d \<Rightarrow>
          (if truthy (js_or (txId d) (tx_id d)) then js_or (txId d) (tx_id d) else JNull)
      | PayBare \<Rightarrow> JNull)"

section \<open>The reconciliation pass\<close>

text \<open>
  The configuration read from the environment, and the body of the transfer request.
  \<open>amount\<close> keeps the configured text of \<open>WORTH\<close>.
\<close>

record config =
  RECEIVER_CARD :: string
  WORTH :: string

record transfer =
  cardCode :: string
  toId :: string
  amount :: string

text \<open>
  What the collaborators answer while one pass runs, for the pending row being
  processed: whether the guild and the member resolve, what the HTTP call does, whether
  the storage engine runs each statement, and the clock read by \<open>markPaid\<close>.
\<close>

record world =
  select_io :: bool
  guild_found :: "reward_row \<Rightarrow> bool"
  member_found :: "reward_row \<Rightarrow> bool"
  http :: "reward_row \<Rightarrow> http_outcome"
  remove_io :: "reward_row \<Rightarrow> bool"
  mark_io :: "reward_row \<Rightarrow> bool"
  clock :: "reward_row \<Rightarrow> nat"

text \<open>
  The payment collaborator's call log: each request, tagged with the \<open>joined_id\<close> of the
  row it pays for. The log messages to the configured channel change neither the ledger
  nor the payments and are not modelled.
\<close>

type_synonym pay_log = "(string \<times> transfer) list"

text \<open>The body of the loop \<open>for (const row of pending)\<close>.\<close>

definition process_row :: "config \<Rightarrow> world \<Rightarrow> ledger \<times> pay_log \<Rightarrow> reward_row \<Rightarrow> ledger \<times> pay_log" where
  "process_row cfg w st row =
     (if \<not> guild_found w row
      then (removeInviteRecord (remove_io w row) (joined_id row) (fst st), snd st)
      else if \<not> member_found w row
      then (removeInviteRecord (remove_io w row) (joined_id row) (fst st), snd st)
      else
        (let calls = snd st @ [(joined_id row,
                \<lparr>cardCode = RECEIVER_CARD cfg, toId = inviter_id row, amount = WORTH cfg\<rparr>)]
         in case payViaCard (http w row) of
              Inl err \<Rightarrow> (fst st, calls)
            | Inr payRes \<Rightarrow>
                (markPaid (mark_io w row) (clock w row) (joined_id row) (txId_of payRes) (fst st),
                 calls)))"

definition periodicCheck :: "config \<Rightarrow> world \<Rightarrow> ledger \<Rightarrow> ledger \<times> pay_log" where
  "periodicCheck cfg w t = foldl (process_row cfg w) (t, []) (getUnpaidInvites (select_io w) 2000 t)"

section \<open>The join handler and the bot as a state machine\<close>

record bot =
  invitesCache :: cache
  invite_rewards :: ledger

text \<open>\<open>used.inviterId || '(unknown)'\<close>.\<close>

definition inviter_or_unknown :: "string option \<Rightarrow> string" where
  "inviter_or_unknown i = (case i of None \<Rightarrow> ''(unknown)'' | Some s \<Rightarrow> if s = [] then ''(unknown)'' else s)"

text \<open>
  The \<open>guildMemberAdd\<close> handler for member \<open>memberId\<close> of guild \<open>guildId\<close>. When
  \<open>guild.invites.fetch()\<close> throws (\<open>fetched = None\<close>) the handler's \<open>catch\<close> leaves
  everything as it was.
\<close>

definition guildMemberAdd ::
  "string \<Rightarrow> string \<Rightarrow> invite list option \<Rightarrow> bool \<Rightarrow> nat \<Rightarrow> bot \<Rightarrow> bot" where
  "guildMemberAdd guildId memberId fetched io now s =
     (case fetched of
        None \<Rightarrow> s
      | Some fetchedArr \<Rightarrow>
          (let oldMap = (case invitesCache s guildId of Some m \<Rightarrow> m | None \<Rightarrow> []);
               newMap = set_all [] fetchedArr;
               found = find_used oldMap fetchedArr newMap;
               s' = s\<lparr>invitesCache := (invitesCache s)(guildId \<mapsto> newMap)\<rparr>
           in case found of
                None \<Rightarrow> s'
              | Some u \<Rightarrow>
                  s'\<lparr>invite_rewards :=
                       addPendingInviteRecord io now guildId (used_code u)
                         (inviter_or_unknown (used_inviterId u)) memberId (invite_rewards s')\<rparr>))"

datatype event =
    Refresh string "invite list option"
  | InviteCreate "string option" string "nat option"
  | InviteDelete "string option" string
  | MemberAdd string string "invite list option" bool nat
  | Tick world

fun step :: "config \<Rightarrow> bot \<times> pay_log \<Rightarrow> event \<Rightarrow> bot \<times> pay_log" where
  "step cfg (s, calls) (Refresh g fetched) =
     (s\<lparr>invitesCache := fst (refreshGuildInvites g fetched (invitesCache s))\<rparr>, calls)"
| "step cfg (s, calls) (InviteCreate g c u) =
     (s\<lparr>invitesCache := inviteCreate g c u (invitesCache s)\<rparr>, calls)"
| "step cfg (s, calls) (InviteDelete g c) =
     (s\<lparr>invitesCache := inviteDelete g c (invitesCache s)\<rparr>, calls)"
| "step cfg (s, calls) (MemberAdd g m fetched io now) =
     (guildMemberAdd g m fetched io now s, calls)"
| "step cfg (s, calls) (Tick w) =
     (let res = periodicCheck cfg w (invite_rewards s)
      in (s\<lparr>invite_rewards := fst res\<rparr>, calls @ snd res))"

definition run :: "config \<Rightarrow> bot \<Rightarrow> event list \<Rightarrow> bot \<times> pay_log" where
  "run cfg s evs = foldl (step cfg) (s, []) evs"

section \<open>The stats total in binary64 arithmetic\<close>

text \<open>
  A JavaScript number is an IEEE 754 binary64 value. A finite one is kept as the rational
  it denotes, and \<open>None\<close> stands for a result that is not finite (an infinity or
  \<open>NaN\<close>); the sign of zero is not kept, as \<open>String\<close> does not print it.

  \<open>bits k\<close> is the length of the binary numeral of a positive integer, and \<open>expo x\<close>
  the exponent \<open>e\<close> of a positive rational, \<open>2 ^ e \<le> x < 2 ^ (e + 1)\<close>.
\<close>

function bits :: "int \<Rightarrow> int" where
  "bits k = (if k \<le> 0 then 0 else 1 + bits (k div 2))"
  by pat_completeness auto
termination
  by (relation "measure nat") auto

declare bits.simps [simp del]

definition pow2 :: "int \<Rightarrow> rat" where
  "pow2 e = (if 0 \<le> e then 2 ^ nat e else 1 / 2 ^ nat (- e))"

definition expo :: "rat \<Rightarrow> int" where
  "expo x = (if 1 \<le> x then bits \<lfloor>x\<rfloor> - 1 else - bits (\<lceil>1 / x\<rceil> - 1))"

text \<open>The nearest integer, a tie going to the even one.\<close>

definition round_even :: "rat \<Rightarrow> int" where
  "round_even x =
     (let f = \<lfloor>x\<rfloor>; r = x - of_int f
      in if r < 1 / 2 then f else if 1 / 2 < r then f + 1 else if even f then f else f + 1)"

text \<open>
  Rounding a rational to binary64, to nearest and ties to even: 53 significant bits,
  exponent at least \<open>-1022\<close> (below it the spacing stays \<open>2 ^ -1074\<close>), and overflow to
  an infinity when the rounded value reaches \<open>2 ^ 1024\<close>.
\<close>

definition dbl :: "rat \<Rightarrow> rat option" where
  "dbl x =
     (if x = 0 then Some 0
      else
        (let e = max (expo \<bar>x\<bar>) (- 1022);
             ulp = pow2 (e - 52);
             y = of_int (round_even (x / ulp)) * ulp
         in if 2 ^ 1024 \<le> \<bar>y\<bar> then None else Some y))"

text \<open>
  The operators \<open>*\<close>, \<open>+\<close> and \<open>/\<close> on numbers round the exact result; \<open>Math.trunc\<close>
  drops the fraction, and its result needs no rounding. \<open>Math.pow(10, digits)\<close> is taken
  as the correctly rounded power; for \<open>digits = 8\<close> it is the exact \<open>100000000\<close>.
\<close>

definition js_mul :: "rat option \<Rightarrow> rat option \<Rightarrow> rat option" where
  "js_mul a b =
     (case a of None \<Rightarrow> None
      | Some x \<Rightarrow> (case b of None \<Rightarrow> None | Some y \<Rightarrow> dbl (x * y)))"

definition js_add :: "rat option \<Rightarrow> rat option \<Rightarrow> rat option" where
  "js_add a b =
     (case a of None \<Rightarrow> None
      | Some x \<Rightarrow> (case b of None \<Rightarrow> None | Some y \<Rightarrow> dbl (x + y)))"

definition js_div :: "rat option \<Rightarrow> rat option \<Rightarrow> rat option" where
  "js_div a b =
     (case a of None \<Rightarrow> None
      | Some x \<Rightarrow>
          (case b of None \<Rightarrow> None | Some y \<Rightarrow> if y = 0 then None else dbl (x / y)))"

definition Math_trunc :: "rat option \<Rightarrow> rat option" where
  "Math_trunc a = map_option (\<lambda>x. of_int (if 0 \<le> x then \<lfloor>x\<rfloor> else \<lceil>x\<rceil>)) a"

definition Math_pow10 :: "nat \<Rightarrow> rat option" where
  "Math_pow10 digits = dbl (10 ^ digits)"

text \<open>\<open>truncateDecimals(num, digits)\<close>; \<open>Number(num)\<close> is \<open>num\<close>, a number at every call.\<close>

definition truncateDecimals :: "rat option \<Rightarrow> nat \<Rightarrow> rat option" where
  "truncateDecimals num digits =
     (let factor = Math_pow10 digits in js_div (Math_trunc (js_mul num factor)) factor)"

text \<open>
  The total of \<open>handleInvitesCommand\<close>. \<open>counts\<close> are the \<open>paid_count\<close> values of the rows
  that \<open>getInviterStats\<close> returned, one per invite code, summed by the loop
  \<open>totalPaidCount += Number(row.paid_count || 0)\<close>; \<open>w\<close> is the number that the decimal
  text of \<open>WORTH\<close> denotes, so that \<open>Number(WORTH)\<close> is \<open>dbl w\<close>. The reply prints
  \<open>String(totalCoins)\<close>, the shortest decimal that reads back as the same binary64
  value: it prints the decimal \<open>d\<close> (of at most 15 digits) exactly when the total is
  \<open>dbl d\<close>.
\<close>

definition totalPaidCount :: "nat list \<Rightarrow> rat option" where
  "totalPaidCount counts = foldl (\<lambda>acc c. js_add acc (dbl (of_nat c))) (Some 0) counts"

definition totalCoins :: "rat \<Rightarrow> nat list \<Rightarrow> rat option" where
  "totalCoins w counts = truncateDecimals (js_mul (totalPaidCount counts) (dbl w)) 8"

text \<open>The exact truncation of a non-negative rational to a number of decimal places.\<close>

definition trunc_dec :: "nat \<Rightarrow> rat \<Rightarrow> rat" where
  "trunc_dec digits x = of_int \<lfloor>x * 10 ^ digits\<rfloor> / 10 ^ digits"

section \<open>Notions used to state the properties\<close>

text \<open>The \<open>UNIQUE\<close> constraint on column \<open>joined_id\<close>.\<close>

definition unique_joined :: "ledger \<Rightarrow> bool" where
  "unique_joined t = distinct (map joined_id t)"

text \<open>The stored rows of one joined member, and the logged requests made for one.\<close>

definition rows_for :: "string \<Rightarrow> ledger \<Rightarrow> reward_row list" where
  "rows_for j t = filter (\<lambda>r. joined_id r = j) t"

definition calls_for :: "string \<Rightarrow> pay_log \<Rightarrow> pay_log" where
  "calls_for j calls = filter (\<lambda>c. fst c = j) calls"

text \<open>An event is a join notification for member \<open>j\<close>.\<close>

fun joins :: "string \<Rightarrow> event \<Rightarrow> bool" where
  "joins j (MemberAdd g m fetched io now) = (m = j)"
| "joins j ev = False"

text \<open>
  The three mutations of the ledger as operations, and the lifecycle condition on a
  row: it is paid, or it is pending with \<open>paid_at\<close> and \<open>payment_tx\<close> unset.
\<close>

datatype ledger_op =
    InsertPending bool nat string string string string
  | MarkPaid bool nat string jsval
  | Delete bool string

fun apply_op :: "ledger \<Rightarrow> ledger_op \<Rightarrow> ledger" where
  "apply_op t (InsertPending io now g c i j) = addPendingInviteRecord io now g c i j t"
| "apply_op t (MarkPaid io now j tx) = markPaid io now j tx t"
| "apply_op t (Delete io j) = removeInviteRecord io j t"

definition lifecycle_ok :: "reward_row \<Rightarrow> bool" where
  "lifecycle_ok r = (paid r = 1 \<or> (paid r = 0 \<and> paid_at r = None \<and> payment_tx r = None))"

text \<open>
  Concrete inputs for the examples: a pending row, a configuration, and a world in
  which storage works, the guild resolves, the member is present or not, and the HTTP
  call has the given outcome.
\<close>

definition ex_row :: reward_row where
  "ex_row = \<lparr>guild_id = ''g1'', invite_code = Some ''B'', inviter_id = ''100'',
     joined_id = ''200'', joined_at = 1000, paid = 0, paid_at = None, payment_tx = None\<rparr>"

definition ex_cfg :: config where
  "ex_cfg = \<lparr>RECEIVER_CARD = ''card'', WORTH = ''0.00001000''\<rparr>"

definition ex_world :: "bool \<Rightarrow> http_outcome \<Rightarrow> world" where
  "ex_world present h =
     \<lparr>select_io = True, guild_found = (\<lambda>r. True), member_found = (\<lambda>r. present),
      http = (\<lambda>r. h), remove_io = (\<lambda>r. True), mark_io = (\<lambda>r. True), clock = (\<lambda>r. 5000)\<rparr>"

section \<open>The storage helpers with the outcome of the call resolved\<close>

lemma addPending_eq:
  "addPendingInviteRecord io now g c i j t =
     (if io
      then insert_or_ignore
             \<lparr>guild_id = g, invite_code = (if c = [] then None else Some c), inviter_id = i,
              joined_id = j, joined_at = now, paid = 0, paid_at = None, payment_tx = None\<rparr> t
      else t)"
  by (simp add: addPendingInviteRecord_def db_run_def)

lemma markPaid_eq:
  "markPaid io now j tx t =
     (if io then update_paid now (if truthy tx then Some tx else None) j t else t)"
  by (simp add: markPaid_def db_run_def)

lemma remove_eq: "removeInviteRecord io j t = (if io then delete_joined j t else t)"
  by (simp add: removeInviteRecord_def db_run_def)

lemma getUnpaid_eq: "getUnpaidInvites io n t = (if io then select_unpaid n t else [])"
  by (simp add: getUnpaidInvites_def db_all_def)

section \<open>Properties of the snapshot map and of the attribution scan\<close>

lemma keys_Map_set:
  "map fst (Map_set m k v) = (if k \<in> set (map fst m) then map fst m else map fst m @ [k])"
  by (induction m) (force split: if_splits)+

lemma distinct_Map_set: "distinct (map fst m) \<Longrightarrow> distinct (map fst (Map_set m k v))"
  by (simp add: keys_Map_set)

lemma distinct_set_all: "distinct (map fst m) \<Longrightarrow> distinct (map fst (set_all m is))"
  by (induction "is" arbitrary: m) (auto simp: distinct_Map_set)

lemma find_append:
  "find P (xs @ ys) = (case find P xs of Some x \<Rightarrow> Some x | None \<Rightarrow> find P ys)"
  by (induction xs) auto

text \<open>
  The keys of the fresh map stand in the order in which the codes first occur in the
  fetched list, so searching the keys is searching the codes of the list.
\<close>

lemma find_keys_set_all:
  "find Q (map fst (set_all m is)) =
     (case find Q (map fst m) of Some k \<Rightarrow> Some k | None \<Rightarrow> find Q (map code is))"
proof (induction "is" arbitrary: m)
  case Nil
  then show ?case by (simp split: option.splits)
next
  case (Cons i rest)
  show ?case
  proof (cases "code i \<in> set (map fst m)")
    case True
    then have "find Q (map fst m) = None \<Longrightarrow> \<not> Q (code i)"
      by (auto simp: find_None_iff)
    with True show ?thesis
      by (auto simp: Cons.IH keys_Map_set split: option.splits)
  next
    case False
    then show ?thesis
      by (auto simp: Cons.IH keys_Map_set find_append split: option.splits)
  qed
qed

lemma find_map_key: "find Q (map f xs) = map_option f (find (\<lambda>x. Q (f x)) xs)"
  by (induction xs) auto

lemma find_used_find:
  "find_used oldMap fetchedArr es =
     (case find (\<lambda>e. snd e > uses_or_0 (Map_get oldMap (fst e))) es of
        None \<Rightarrow> None
      | Some e \<Rightarrow> Some \<lparr>used_code = fst e, used_inviterId = inviter_of fetchedArr (fst e)\<rparr>)"
  by (induction es) auto

lemma find_same_key:
  "find P xs = Some i \<Longrightarrow> (\<And>x. f x = f i \<Longrightarrow> P x) \<Longrightarrow> find (\<lambda>x. f x = f i) xs = Some i"
  by (induction xs) (auto split: if_splits)

lemma entry_count:
  "distinct (map fst m) \<Longrightarrow> e \<in> set m \<Longrightarrow> uses_or_0 (Map_get m (fst e)) = snd e"
  by (cases e) (simp add: Map_get_def uses_or_0_def)

lemma scan_first_increase:
  "find_used oldMap fetched (set_all [] fetched) =
     (case find (\<lambda>i. uses_or_0 (Map_get (set_all [] fetched) (code i))
                        > uses_or_0 (Map_get oldMap (code i))) fetched of
        None \<Rightarrow> None
      | Some i \<Rightarrow> Some \<lparr>used_code = code i, used_inviterId = inviter i\<rparr>)"
proof -
  define newMap where "newMap = set_all [] fetched"
  define Q where "Q = (\<lambda>k. uses_or_0 (Map_get newMap k) > uses_or_0 (Map_get oldMap k))"
  have d: "distinct (map fst newMap)"
    unfolding newMap_def by (rule distinct_set_all) simp
  have e: "find (\<lambda>e. snd e > uses_or_0 (Map_get oldMap (fst e))) newMap
             = find (\<lambda>e. Q (fst e)) newMap"
    by (rule find_cong) (auto simp: Q_def entry_count [OF d])
  have k: "map_option fst (find (\<lambda>e. Q (fst e)) newMap)
             = map_option code (find (\<lambda>i. Q (code i)) fetched)"
    using find_keys_set_all [of Q "[]" fetched]
    by (simp add: find_map_key newMap_def)
  show ?thesis
  proof (cases "find (\<lambda>i. Q (code i)) fetched")
    case None
    with k have "find (\<lambda>e. Q (fst e)) newMap = None" by simp
    with None e show ?thesis
      by (simp add: find_used_find newMap_def [symmetric] Q_def)
  next
    case (Some i)
    with k obtain en where en: "find (\<lambda>e. Q (fst e)) newMap = Some en" "fst en = code i"
      by auto
    have "find (\<lambda>x. code x = code i) fetched = Some i"
      using Some by (rule find_same_key) (use Some in \<open>auto simp: find_Some_iff\<close>)
    then have "inviter_of fetched (code i) = inviter i"
      by (simp add: inviter_of_def)
    with Some en e show ?thesis
      by (simp add: find_used_find newMap_def [symmetric] Q_def)
  qed
qed

text \<open>
  The fresh map of a fetched list whose codes are pairwise distinct, as the values of
  the platform's collection (keyed by code) are, holds each invite's own count.
\<close>

lemma map_of_Map_set: "map_of (Map_set m k v) = (map_of m)(k \<mapsto> v)"
  by (induction m) (auto simp: fun_eq_iff)

lemma map_of_set_all_other:
  "k \<notin> set (map code is) \<Longrightarrow> map_of (set_all m is) k = map_of m k"
  by (induction "is" arbitrary: m) (auto simp: map_of_Map_set)

lemma map_of_set_all_distinct:
  "distinct (map code is) \<Longrightarrow> i \<in> set is \<Longrightarrow>
     map_of (set_all m is) (code i) = Some (uses_or_0 (uses i))"
proof (induction "is" arbitrary: m)
  case Nil
  then show ?case by simp
next
  case (Cons a rest)
  show ?case
  proof (cases "a = i")
    case True
    with Cons.prems have "code i \<notin> set (map code rest)" by auto
    with True show ?thesis
      by (simp add: map_of_set_all_other map_of_Map_set)
  next
    case False
    with Cons.prems have "distinct (map code rest)" "i \<in> set rest" by auto
    then show ?thesis by (simp add: Cons.IH)
  qed
qed

lemma count_in_fresh_map:
  "distinct (map code f) \<Longrightarrow> i \<in> set f \<Longrightarrow>
     uses_or_0 (Map_get (set_all [] f) (code i)) = uses_or_0 (uses i)"
  by (simp add: Map_get_def map_of_set_all_distinct) (simp add: uses_or_0_def)

section \<open>Properties of the ledger and of a reconciliation pass\<close>

lemma joined_id_update_paid: "map joined_id (update_paid now tx j t) = map joined_id t"
  by (induction t) (auto simp: update_paid_def)

lemma unique_markPaid: "unique_joined t \<Longrightarrow> unique_joined (markPaid io now j tx t)"
  by (simp add: unique_joined_def markPaid_eq joined_id_update_paid)

lemma unique_remove: "unique_joined t \<Longrightarrow> unique_joined (removeInviteRecord io j t)"
  by (simp add: unique_joined_def remove_eq delete_joined_def distinct_map_filter)

lemma unique_insert: "unique_joined t \<Longrightarrow> unique_joined (insert_or_ignore r t)"
  by (auto simp: unique_joined_def insert_or_ignore_def)

lemma unique_addPending:
  "unique_joined t \<Longrightarrow> unique_joined (addPendingInviteRecord io now g c i j t)"
  by (simp add: addPending_eq unique_insert)

lemma unique_process_row:
  "unique_joined (fst st) \<Longrightarrow> unique_joined (fst (process_row cfg w st row))"
  by (auto simp: process_row_def Let_def unique_markPaid unique_remove split: sum.splits)

lemma unique_foldl_process:
  "unique_joined (fst st) \<Longrightarrow> unique_joined (fst (foldl (process_row cfg w) st ps))"
  by (induction ps arbitrary: st) (auto simp: unique_process_row)

lemma unique_periodicCheck:
  "unique_joined t \<Longrightarrow> unique_joined (fst (periodicCheck cfg w t))"
  by (simp add: periodicCheck_def unique_foldl_process)

lemma rows_for_markPaid:
  "rows_for j (markPaid io now j' tx t) =
     (if j' = j then markPaid io now j' tx (rows_for j t) else rows_for j t)"
  by (induction t) (auto simp: rows_for_def markPaid_eq update_paid_def)

lemma rows_for_remove:
  "rows_for j (removeInviteRecord io j' t) =
     (if j' = j then removeInviteRecord io j' (rows_for j t) else rows_for j t)"
  by (induction t) (auto simp: rows_for_def remove_eq delete_joined_def)

lemma rows_for_process_row:
  "rows_for j (fst (process_row cfg w st p)) =
     (if joined_id p = j then fst (process_row cfg w (rows_for j (fst st), []) p)
      else rows_for j (fst st))"
  by (auto simp: process_row_def Let_def rows_for_markPaid rows_for_remove split: sum.splits)

lemma calls_process_row:
  "snd (process_row cfg w st p) = snd st @ snd (process_row cfg w ([], []) p)"
  by (auto simp: process_row_def Let_def split: sum.splits)

lemma calls_for_process_row:
  "calls_for j (snd (process_row cfg w st p)) =
     (if joined_id p = j then calls_for j (snd st) @ snd (process_row cfg w ([], []) p)
      else calls_for j (snd st))"
  by (auto simp: process_row_def Let_def calls_for_def split: sum.splits)

lemma foldl_process_others:
  "\<forall>p \<in> set ps. joined_id p \<noteq> j \<Longrightarrow>
     rows_for j (fst (foldl (process_row cfg w) st ps)) = rows_for j (fst st)
     \<and> calls_for j (snd (foldl (process_row cfg w) st ps)) = calls_for j (snd st)"
  by (induction ps arbitrary: st) (auto simp: rows_for_process_row calls_for_process_row)

lemma select_unpaid_subset: "set (select_unpaid n t) \<subseteq> {r \<in> set t. paid r = 0}"
  by (auto simp: select_unpaid_def dest: in_set_takeD)

lemma getUnpaid_pending: "p \<in> set (getUnpaidInvites io n t) \<Longrightarrow> p \<in> set t \<and> paid p = 0"
  using select_unpaid_subset [of n t] by (auto simp: getUnpaid_eq split: if_splits)

lemma distinct_select_unpaid:
  "unique_joined t \<Longrightarrow> distinct (map joined_id (select_unpaid n t))"
  by (simp add: unique_joined_def select_unpaid_def distinct_map_filter take_map [symmetric])

lemma distinct_getUnpaid:
  "unique_joined t \<Longrightarrow> distinct (map joined_id (getUnpaidInvites io n t))"
  by (simp add: getUnpaid_eq distinct_select_unpaid)

lemma rows_for_member:
  "unique_joined t \<Longrightarrow> r \<in> set t \<Longrightarrow> rows_for (joined_id r) t = [r]"
proof (induction t)
  case Nil
  then show ?case by simp
next
  case (Cons a t)
  show ?case
  proof (cases "a = r")
    case True
    with Cons.prems have "\<forall>x \<in> set t. joined_id x \<noteq> joined_id r"
      by (auto simp: unique_joined_def image_iff)
    then have "filter (\<lambda>x. joined_id x = joined_id r) t = []"
      by (simp add: filter_empty_conv)
    with True show ?thesis by (simp add: rows_for_def)
  next
    case False
    with Cons.prems have "r \<in> set t" "joined_id a \<noteq> joined_id r" "unique_joined t"
      by (auto simp: unique_joined_def)
    with Cons.IH show ?thesis by (simp add: rows_for_def)
  qed
qed

lemma same_joined_same_row:
  assumes "unique_joined t" and "r \<in> set t" and "x \<in> set t" and "joined_id x = joined_id r"
  shows "x = r"
proof -
  have a: "rows_for (joined_id r) t = [r]"
    using assms(1,2) by (rule rows_for_member)
  have "x \<in> set (rows_for (joined_id r) t)"
    using assms(3,4) by (simp add: rows_for_def)
  then show "x = r"
    unfolding a by simp
qed

lemma rows_for_length_one:
  "unique_joined t \<Longrightarrow> j \<in> set (map joined_id t) \<Longrightarrow> length (rows_for j t) = 1"
  by (auto simp: rows_for_member)

text \<open>The fate of one pending row in a pass is decided by processing that row alone.\<close>

lemma pass_row:
  assumes u: "unique_joined t" and r: "r \<in> set (getUnpaidInvites (select_io w) 2000 t)"
  shows "rows_for (joined_id r) (fst (periodicCheck cfg w t)) = fst (process_row cfg w ([r], []) r)"
    and "calls_for (joined_id r) (snd (periodicCheck cfg w t)) = snd (process_row cfg w ([], []) r)"
proof -
  let ?ps = "getUnpaidInvites (select_io w) 2000 t"
  from r obtain ps1 ps2 where ps: "?ps = ps1 @ r # ps2"
    by (auto dest: split_list)
  have d: "distinct (map joined_id ?ps)"
    using u by (rule distinct_getUnpaid)
  from d have "distinct (map joined_id (ps1 @ r # ps2))"
    by (simp only: ps)
  then have o1: "\<forall>p \<in> set ps1. joined_id p \<noteq> joined_id r"
    and o2: "\<forall>p \<in> set ps2. joined_id p \<noteq> joined_id r"
    by (auto simp: image_iff)
  have rt: "rows_for (joined_id r) t = [r]"
    using u r by (auto intro: rows_for_member dest: getUnpaid_pending)
  let ?s1 = "foldl (process_row cfg w) (t, []) ps1"
  have s1: "rows_for (joined_id r) (fst ?s1) = [r]" "calls_for (joined_id r) (snd ?s1) = []"
    using foldl_process_others [OF o1, of cfg w "(t, [])"] rt by (simp_all add: calls_for_def)
  have pc: "periodicCheck cfg w t = foldl (process_row cfg w) (process_row cfg w ?s1 r) ps2"
    by (simp add: periodicCheck_def ps)
  show "rows_for (joined_id r) (fst (periodicCheck cfg w t)) = fst (process_row cfg w ([r], []) r)"
    using foldl_process_others [OF o2, of cfg w "process_row cfg w ?s1 r"] s1
    by (simp add: pc rows_for_process_row)
  show "calls_for (joined_id r) (snd (periodicCheck cfg w t)) = snd (process_row cfg w ([], []) r)"
    using foldl_process_others [OF o2, of cfg w "process_row cfg w ?s1 r"] s1
    by (simp add: pc calls_for_process_row)
qed

text \<open>The transaction id that \<open>markPaid\<close> binds, by the shape of the payment result.\<close>

lemma stored_tx:
  "(if truthy (txId_of p) then Some (txId_of p) else None) =
     (case p of
        PayTx t \<Rightarrow> (if truthy t then Some t else None)
      | PayData d \<Rightarrow> (if truthy (txId d) then Some (txId d)
                       else if truthy (tx_id d) then Some (tx_id d) else None)
      | PayBare \<Rightarrow> None)"
  by (simp add: txId_of_def js_or_def split: pay_result.splits)

section \<open>Inserting a pending record\<close>

text \<open>
  Inserting for a \<open>joined_id\<close> that has a row changes nothing; otherwise the new row is
  the only one of its \<open>joined_id\<close>. Rows of other members are never touched.
\<close>

lemma rows_for_insert_present:
  "rows_for j t \<noteq> [] \<Longrightarrow> rows_for j (insert_or_ignore x t) = rows_for j t"
proof -
  assume "rows_for j t \<noteq> []"
  then obtain y where "y \<in> set t" "joined_id y = j"
    by (auto simp: rows_for_def filter_empty_conv)
  then have "j \<in> set (map joined_id t)" by auto
  then show ?thesis
    by (auto simp: insert_or_ignore_def rows_for_def)
qed

lemma rows_for_addPending_present:
  "rows_for j t \<noteq> [] \<Longrightarrow> rows_for j (addPendingInviteRecord io now g c i m t) = rows_for j t"
  by (simp add: addPending_eq rows_for_insert_present)

lemma rows_for_addPending_other:
  "m \<noteq> j \<Longrightarrow> rows_for j (addPendingInviteRecord io now g c i m t) = rows_for j t"
  by (simp add: addPending_eq insert_or_ignore_def rows_for_def)

lemma rows_for_addPending_new:
  "rows_for j t = [] \<Longrightarrow>
     rows_for j (addPendingInviteRecord True now g c i j t)
       = [\<lparr>guild_id = g, invite_code = (if c = [] then None else Some c), inviter_id = i,
           joined_id = j, joined_at = now, paid = 0, paid_at = None, payment_tx = None\<rparr>]"
proof -
  assume a: "rows_for j t = []"
  then have "j \<notin> set (map joined_id t)"
    by (auto simp: rows_for_def filter_empty_conv)
  with a show ?thesis
    by (simp add: addPending_eq insert_or_ignore_def rows_for_def)
qed

lemma joined_addPending: "j \<in> set (map joined_id (addPendingInviteRecord True now g c i j t))"
  by (simp add: addPending_eq insert_or_ignore_def)

lemma insert_or_ignore_present:
  "joined_id x \<in> set (map joined_id t) \<Longrightarrow> insert_or_ignore x t = t"
  by (simp add: insert_or_ignore_def)

lemma ledger_guildMemberAdd:
  "invite_rewards (guildMemberAdd g m fetched io now s) = invite_rewards s
   \<or> (\<exists>c i. invite_rewards (guildMemberAdd g m fetched io now s)
         = addPendingInviteRecord io now g c i m (invite_rewards s))"
  by (auto simp: guildMemberAdd_def Let_def split: option.splits)

lemma ledger_guildMemberAdd_used:
  "find_used (case invitesCache s g of Some m0 \<Rightarrow> m0 | None \<Rightarrow> []) f (set_all [] f) = Some u \<Longrightarrow>
     invite_rewards (guildMemberAdd g m (Some f) io now s)
       = addPendingInviteRecord io now g (used_code u) (inviter_or_unknown (used_inviterId u)) m
           (invite_rewards s)"
  by (simp add: guildMemberAdd_def Let_def)

section \<open>A paid record, and a member without record, through later events\<close>

text \<open>The \<open>UNIQUE\<close> constraint holds in every state the bot reaches.\<close>

lemma unique_step:
  "unique_joined (invite_rewards (fst st)) \<Longrightarrow> unique_joined (invite_rewards (fst (step cfg st ev)))"
proof (cases st)
  case (Pair s calls)
  assume u: "unique_joined (invite_rewards (fst st))"
  show ?thesis
  proof (cases ev)
    case (MemberAdd g m fetched io now)
    from ledger_guildMemberAdd [of g m fetched io now s] u Pair MemberAdd
    show ?thesis
      by (auto simp: unique_addPending)
  next
    case (Tick w)
    with Pair u show ?thesis
      by (simp add: Let_def unique_periodicCheck)
  qed (use u Pair in simp_all)
qed

lemma unique_run:
  "unique_joined (invite_rewards s) \<Longrightarrow> unique_joined (invite_rewards (fst (run cfg s evs)))"
proof -
  have "unique_joined (invite_rewards (fst st)) \<Longrightarrow>
          unique_joined (invite_rewards (fst (foldl (step cfg) st evs)))" for st
    by (induction evs arbitrary: st) (simp_all add: unique_step)
  from this [of "(s, [])"] show "unique_joined (invite_rewards s) \<Longrightarrow> ?thesis"
    by (simp add: run_def)
qed

text \<open>A row that is paid is never selected again, so no later event touches it.\<close>

lemma pending_not_paid:
  assumes "unique_joined t" and "rows_for j t = [r]" and "paid r \<noteq> 0"
    and "p \<in> set (getUnpaidInvites io n t)"
  shows "joined_id p \<noteq> j"
proof
  assume eq: "joined_id p = j"
  from assms(4) have p: "p \<in> set t" "paid p = 0"
    by (auto dest: getUnpaid_pending)
  with eq have "p \<in> set (rows_for j t)"
    by (simp add: rows_for_def)
  with assms(2,3) p show False by simp
qed

lemma periodicCheck_keeps_paid:
  assumes "unique_joined t" and "rows_for j t = [r]" and "paid r \<noteq> 0"
  shows "rows_for j (fst (periodicCheck cfg w t)) = [r]
         \<and> calls_for j (snd (periodicCheck cfg w t)) = []"
proof -
  have "\<forall>p \<in> set (getUnpaidInvites (select_io w) 2000 t). joined_id p \<noteq> j"
    using assms by (auto dest: pending_not_paid)
  from foldl_process_others [OF this, of cfg w "(t, [])"] assms(2)
  show ?thesis by (simp add: periodicCheck_def calls_for_def)
qed

lemma calls_for_append: "calls_for j (xs @ ys) = calls_for j xs @ calls_for j ys"
  by (simp add: calls_for_def)

lemma step_keeps_paid:
  assumes "unique_joined (invite_rewards (fst st))"
    and "rows_for j (invite_rewards (fst st)) = [r]" and "paid r \<noteq> 0"
  shows "unique_joined (invite_rewards (fst (step cfg st ev)))
         \<and> rows_for j (invite_rewards (fst (step cfg st ev))) = [r]
         \<and> calls_for j (snd (step cfg st ev)) = calls_for j (snd st)"
proof (cases st)
  case (Pair s calls)
  show ?thesis
  proof (cases ev)
    case (MemberAdd g m fetched io now)
    from ledger_guildMemberAdd [of g m fetched io now s] assms Pair MemberAdd
    show ?thesis
      by (auto simp: unique_addPending rows_for_addPending_present)
  next
    case (Tick w)
    with Pair assms periodicCheck_keeps_paid [of "invite_rewards s" j r cfg w]
    show ?thesis
      by (simp add: Let_def unique_periodicCheck calls_for_append)
  qed (use assms Pair in simp_all)
qed

lemma run_keeps_paid:
  assumes "unique_joined (invite_rewards (fst st))"
    and "rows_for j (invite_rewards (fst st)) = [r]" and "paid r \<noteq> 0"
  shows "rows_for j (invite_rewards (fst (foldl (step cfg) st evs))) = [r]
         \<and> calls_for j (snd (foldl (step cfg) st evs)) = calls_for j (snd st)"
  using assms
proof (induction evs arbitrary: st)
  case Nil
  then show ?case by simp
next
  case (Cons ev evs)
  from step_keeps_paid [OF Cons.prems, of cfg ev]
  have "unique_joined (invite_rewards (fst (step cfg st ev)))"
    and "rows_for j (invite_rewards (fst (step cfg st ev))) = [r]"
    and c: "calls_for j (snd (step cfg st ev)) = calls_for j (snd st)"
    by simp_all
  from Cons.IH [OF this(1,2) Cons.prems(3)] c show ?case by simp
qed

lemma periodicCheck_keeps_absent:
  assumes "rows_for j t = []"
  shows "rows_for j (fst (periodicCheck cfg w t)) = []
         \<and> calls_for j (snd (periodicCheck cfg w t)) = []"
proof -
  have "\<forall>p \<in> set (getUnpaidInvites (select_io w) 2000 t). joined_id p \<noteq> j"
    using assms by (auto simp: rows_for_def filter_empty_conv dest: getUnpaid_pending)
  from foldl_process_others [OF this, of cfg w "(t, [])"] assms
  show ?thesis by (simp add: periodicCheck_def calls_for_def)
qed

lemma step_keeps_absent:
  assumes "rows_for j (invite_rewards (fst st)) = []" and "\<not> joins j ev"
  shows "rows_for j (invite_rewards (fst (step cfg st ev))) = []
         \<and> calls_for j (snd (step cfg st ev)) = calls_for j (snd st)"
proof (cases st)
  case (Pair s calls)
  show ?thesis
  proof (cases ev)
    case (MemberAdd g m fetched io now)
    from ledger_guildMemberAdd [of g m fetched io now s] assms Pair MemberAdd
    show ?thesis
      by (auto simp: rows_for_addPending_other)
  next
    case (Tick w)
    with Pair assms periodicCheck_keeps_absent [of j "invite_rewards s" cfg w]
    show ?thesis
      by (simp add: Let_def calls_for_append)
  qed (use assms Pair in simp_all)
qed

lemma run_keeps_absent:
  assumes "rows_for j (invite_rewards (fst st)) = []" and "\<forall>ev \<in> set evs. \<not> joins j ev"
  shows "rows_for j (invite_rewards (fst (foldl (step cfg) st evs))) = []
         \<and> calls_for j (snd (foldl (step cfg) st evs)) = calls_for j (snd st)"
  using assms
proof (induction evs arbitrary: st)
  case Nil
  then show ?case by simp
next
  case (Cons ev evs)
  from Cons.prems have n: "\<not> joins j ev" and r: "\<forall>e \<in> set evs. \<not> joins j e"
    by simp_all
  from step_keeps_absent [OF Cons.prems(1) n, of cfg]
  have a: "rows_for j (invite_rewards (fst (step cfg st ev))) = []"
    and c: "calls_for j (snd (step cfg st ev)) = calls_for j (snd st)"
    by simp_all
  from Cons.IH [OF a r] c show ?case by simp
qed

section \<open>The lifecycle of a record under the ledger operations\<close>

lemma lifecycle_apply_op:
  "\<forall>r \<in> set t. lifecycle_ok r \<Longrightarrow> \<forall>r \<in> set (apply_op t op). lifecycle_ok r"
  by (cases op)
     (auto simp: addPending_eq insert_or_ignore_def markPaid_eq update_paid_def remove_eq
        delete_joined_def lifecycle_ok_def)

lemma unique_apply_op: "unique_joined t \<Longrightarrow> unique_joined (apply_op t op)"
  by (cases op) (simp_all add: unique_addPending unique_markPaid unique_remove)

lemma reachable_ledger:
  "\<forall>r \<in> set t. lifecycle_ok r \<Longrightarrow> unique_joined t \<Longrightarrow>
     (\<forall>r \<in> set (foldl apply_op t ops). lifecycle_ok r) \<and> unique_joined (foldl apply_op t ops)"
proof (induction ops arbitrary: t)
  case Nil
  then show ?case by simp
next
  case (Cons op ops)
  from Cons.prems have "\<forall>r \<in> set (apply_op t op). lifecycle_ok r" "unique_joined (apply_op t op)"
    by (simp_all add: lifecycle_apply_op unique_apply_op)
  from Cons.IH [OF this] show ?case by simp
qed

lemma no_revert_apply_op:
  assumes u: "unique_joined t" and r: "r \<in> set t" and p: "paid r = 1"
    and r': "r' \<in> set (apply_op t op)" and j: "joined_id r' = joined_id r"
  shows "paid r' = 1"
proof (cases op)
  case (InsertPending io now g c i m)
  with r' have "r' \<in> set t \<or> (joined_id r' = m \<and> m \<notin> set (map joined_id t))"
    by (auto simp: addPending_eq insert_or_ignore_def split: if_splits)
  with r j have "r' \<in> set t" by auto
  with u r j p show ?thesis by (auto dest: same_joined_same_row)
next
  case (MarkPaid io now m tx)
  with r' obtain x where x: "x \<in> set t"
    "r' = x \<or> r' = x\<lparr>paid := 1, paid_at := Some now, payment_tx := (if truthy tx then Some tx else None)\<rparr>"
    by (auto simp: markPaid_eq update_paid_def split: if_splits)
  with j have "joined_id x = joined_id r" by auto
  with u r x(1) have "x = r" by (rule same_joined_same_row)
  with x p show ?thesis by auto
next
  case (Delete io m)
  with r' have "r' \<in> set t"
    by (auto simp: remove_eq delete_joined_def split: if_splits)
  with u r j p show ?thesis by (auto dest: same_joined_same_row)
qed

section \<open>Evaluating binary64 arithmetic\<close>

lemma floor_rat_numeral: "\<lfloor>(numeral a / numeral b :: rat)\<rfloor> = numeral a div numeral b"
  using floor_divide_of_int_eq [of "numeral a" "numeral b", where ?'a = rat] by simp

lemma floor_rat_neg_numeral:
  "\<lfloor>(- (numeral a / numeral b) :: rat)\<rfloor> = - numeral a div numeral b"
  using floor_divide_of_int_eq [of "- numeral a" "numeral b", where ?'a = rat] by simp

lemma ceiling_rat_numeral:
  "\<lceil>(numeral a / numeral b :: rat)\<rceil> = - (- numeral a div numeral b)"
  by (simp add: ceiling_def floor_rat_neg_numeral)

lemmas dbl_eval = dbl_def expo_def round_even_def pow2_def bits.simps Let_def
  floor_rat_numeral floor_rat_neg_numeral ceiling_rat_numeral

lemmas total_eval = totalCoins_def totalPaidCount_def truncateDecimals_def Math_pow10_def
  Math_trunc_def js_mul_def js_add_def js_div_def trunc_dec_def

text \<open>The values of some decimal texts, and the steps of the total for 29 times 0.01.\<close>

lemma dbl_one_hundredth: "dbl (1 / 100) = Some (5764607523034235 / 2 ^ 59)"
  by (simp add: dbl_eval)

lemma dbl_product_29: "js_mul (dbl 29) (dbl (1 / 100)) = Some (5224175567749775 / 2 ^ 54)"
  by (simp add: js_mul_def dbl_eval)

lemma dbl_scaled_29:
  "js_mul (Some (5224175567749775 / 2 ^ 54)) (Math_pow10 8) = Some (7784628223999999 / 2 ^ 28)"
  by (simp add: js_mul_def Math_pow10_def dbl_eval)

lemma trunc_scaled_29: "Math_trunc (Some (7784628223999999 / 2 ^ 28)) = Some 28999999"
  by (simp add: Math_trunc_def floor_rat_numeral)

section \<open>Claims\<close>

text \<open>
  C1. On a join, the scan of the \<open>guildMemberAdd\<close> handler returns the first invite of
  the fetched list, in the order the platform returned it, whose count in the freshly
  built map is strictly greater than its count in the cached snapshot, a code absent
  from the snapshot counting as 0; the result carries that invite's code and its owner.
  With the snapshot \<open>{A:5, B:2}\<close> and the live list \<open>A:5, B:3\<close> the scan returns invite
  \<open>B\<close> with \<open>B\<close>'s owner, and the handler stores the pending row for \<open>B\<close> and that owner.
\<close>

theorem C1_first_increased_invite:
  "find_used oldMap fetched (set_all [] fetched) =
     (case find (\<lambda>i. uses_or_0 (Map_get (set_all [] fetched) (code i))
                        > uses_or_0 (Map_get oldMap (code i))) fetched of
        None \<Rightarrow> None
      | Some i \<Rightarrow> Some \<lparr>used_code = code i, used_inviterId = inviter i\<rparr>)
   \<and> find_used [(''A'', 5), (''B'', 2)]
       [\<lparr>code = ''A'', uses = Some 5, inviter = a\<rparr>, \<lparr>code = ''B'', uses = Some 3, inviter = b\<rparr>]
       (set_all [] [\<lparr>code = ''A'', uses = Some 5, inviter = a\<rparr>,
                    \<lparr>code = ''B'', uses = Some 3, inviter = b\<rparr>])
     = Some \<lparr>used_code = ''B'', used_inviterId = b\<rparr>
   \<and> invite_rewards (guildMemberAdd g m
       (Some [\<lparr>code = ''A'', uses = Some 5, inviter = Some ''alice''\<rparr>,
              \<lparr>code = ''B'', uses = Some 3, inviter = Some ''bob''\<rparr>]) True now
       \<lparr>invitesCache = Map.empty(g \<mapsto> [(''A'', 5), (''B'', 2)]), invite_rewards = []\<rparr>)
     = [\<lparr>guild_id = g, invite_code = Some ''B'', inviter_id = ''bob'', joined_id = m,
         joined_at = now, paid = 0, paid_at = None, payment_tx = None\<rparr>]"
proof (intro conjI)
  show "find_used oldMap fetched (set_all [] fetched) =
     (case find (\<lambda>i. uses_or_0 (Map_get (set_all [] fetched) (code i))
                        > uses_or_0 (Map_get oldMap (code i))) fetched of
        None \<Rightarrow> None
      | Some i \<Rightarrow> Some \<lparr>used_code = code i, used_inviterId = inviter i\<rparr>)"
    by (rule scan_first_increase)
qed (simp_all add: guildMemberAdd_def uses_or_0_def Map_get_def inviter_of_def
      addPending_eq insert_or_ignore_def inviter_or_unknown_def)

text \<open>
  C2. Let the ledger hold at most one row per \<open>joined_id\<close> and a row \<open>r\<close>, and let
  \<open>markPaid\<close> run for \<open>r\<close>'s \<open>joined_id\<close> (its \<open>paid\<close> flag becomes 1). Then through
  every later sequence of events (joins, cache events, reconciliation passes in any
  world) no payment request is made for that \<open>joined_id\<close>, and its row stays the paid
  row as \<open>markPaid\<close> wrote it; every row a pass selects has \<open>paid = 0\<close>.
\<close>

theorem C2_no_second_payment:
  assumes "unique_joined (invite_rewards s)" and "r \<in> set (invite_rewards s)"
  shows "calls_for (joined_id r)
           (snd (run cfg (s\<lparr>invite_rewards := markPaid True now (joined_id r) tx (invite_rewards s)\<rparr>) evs)) = []
       \<and> rows_for (joined_id r)
           (invite_rewards (fst (run cfg (s\<lparr>invite_rewards := markPaid True now (joined_id r) tx (invite_rewards s)\<rparr>) evs)))
           = [r\<lparr>paid := 1, paid_at := Some now, payment_tx := (if truthy tx then Some tx else None)\<rparr>]
       \<and> (\<forall>p \<in> set (getUnpaidInvites io n t). paid p = 0)"
proof -
  let ?t = "markPaid True now (joined_id r) tx (invite_rewards s)"
  let ?r = "r\<lparr>paid := 1, paid_at := Some now, payment_tx := (if truthy tx then Some tx else None)\<rparr>"
  have u: "unique_joined ?t"
    using assms(1) by (rule unique_markPaid)
  have "rows_for (joined_id r) ?t = markPaid True now (joined_id r) tx [r]"
    using assms by (simp add: rows_for_markPaid rows_for_member)
  then have rf: "rows_for (joined_id r) ?t = [?r]"
    by (simp add: markPaid_eq update_paid_def)
  have p: "paid ?r \<noteq> 0" by simp
  from run_keeps_paid [of "(s\<lparr>invite_rewards := ?t\<rparr>, [])" "joined_id r" ?r cfg evs] u rf p
  show ?thesis
    by (auto simp: run_def calls_for_def dest: getUnpaid_pending)
qed

theorem C2_no_second_payment_witness:
  "unique_joined (invite_rewards \<lparr>invitesCache = Map.empty, invite_rewards = [ex_row]\<rparr>)
   \<and> ex_row \<in> set (invite_rewards \<lparr>invitesCache = Map.empty, invite_rewards = [ex_row]\<rparr>)
   \<and> calls_for (joined_id ex_row)
        (snd (run ex_cfg
           (\<lparr>invitesCache = Map.empty, invite_rewards = [ex_row]\<rparr>
              \<lparr>invite_rewards := markPaid True 5000 (joined_id ex_row) (JStr ''tx1'')
                 (invite_rewards \<lparr>invitesCache = Map.empty, invite_rewards = [ex_row]\<rparr>)\<rparr>)
           [Tick (ex_world True (Resp None)), Tick (ex_world True (Resp None))])) = []"
proof -
  have u: "unique_joined (invite_rewards \<lparr>invitesCache = Map.empty, invite_rewards = [ex_row]\<rparr>)"
    by (simp add: unique_joined_def)
  have m: "ex_row \<in> set (invite_rewards \<lparr>invitesCache = Map.empty, invite_rewards = [ex_row]\<rparr>)"
    by simp
  from C2_no_second_payment [OF u m] u m show ?thesis
    by blast
qed

text \<open>
  C3, as the code has it. A payment attempt fails exactly when the HTTP request throws
  (network failure, timeout, a status outside 2xx): then the row of the pending record
  is left as it was, still pending with \<open>paid = 0\<close>, and the pass made exactly one
  request for it. No delivered response makes \<open>payViaCard\<close> fail, whatever its
  \<open>success\<close> flag.
\<close>

theorem C3_thrown_request_stays_pending:
  assumes "unique_joined t" and "r \<in> set (getUnpaidInvites (select_io w) 2000 t)"
    and "guild_found w r" and "member_found w r" and "http w r = Threw"
  shows "rows_for (joined_id r) (fst (periodicCheck cfg w t)) = [r] \<and> paid r = 0
       \<and> calls_for (joined_id r) (snd (periodicCheck cfg w t))
           = [(joined_id r, \<lparr>cardCode = RECEIVER_CARD cfg, toId = inviter_id r, amount = WORTH cfg\<rparr>)]
       \<and> (\<forall>h. (payViaCard h = Inl PaymentFailed) = (h = Threw))"
proof (intro conjI)
  show "rows_for (joined_id r) (fst (periodicCheck cfg w t)) = [r]"
    using assms by (simp add: pass_row(1) process_row_def payViaCard_def)
  show "paid r = 0"
    using assms(2) by (simp add: getUnpaid_pending)
  show "calls_for (joined_id r) (snd (periodicCheck cfg w t))
           = [(joined_id r, \<lparr>cardCode = RECEIVER_CARD cfg, toId = inviter_id r, amount = WORTH cfg\<rparr>)]"
    using assms by (simp add: pass_row(2) process_row_def payViaCard_def)
  show "\<forall>h. (payViaCard h = Inl PaymentFailed) = (h = Threw)"
    by (auto simp: payViaCard_def split: http_outcome.splits option.splits)
qed

theorem C3_thrown_request_stays_pending_witness:
  "unique_joined [ex_row]
   \<and> ex_row \<in> set (getUnpaidInvites (select_io (ex_world True Threw)) 2000 [ex_row])
   \<and> guild_found (ex_world True Threw) ex_row \<and> member_found (ex_world True Threw) ex_row
   \<and> http (ex_world True Threw) ex_row = Threw
   \<and> rows_for (joined_id ex_row) (fst (periodicCheck ex_cfg (ex_world True Threw) [ex_row])) = [ex_row]
   \<and> calls_for (joined_id ex_row) (snd (periodicCheck ex_cfg (ex_world True Threw) [ex_row]))
        = [(''200'', \<lparr>cardCode = ''card'', toId = ''100'', amount = ''0.00001000''\<rparr>)]"
proof -
  have h1: "unique_joined [ex_row]"
    by (simp add: unique_joined_def)
  have h2: "ex_row \<in> set (getUnpaidInvites (select_io (ex_world True Threw)) 2000 [ex_row])"
    by (simp add: getUnpaid_eq select_unpaid_def ex_world_def ex_row_def)
  have h3: "guild_found (ex_world True Threw) ex_row" "member_found (ex_world True Threw) ex_row"
    "http (ex_world True Threw) ex_row = Threw"
    by (simp_all add: ex_world_def)
  from C3_thrown_request_stays_pending [OF h1 h2 h3, of ex_cfg] h1 h2 h3 show ?thesis
    by (simp add: ex_cfg_def ex_row_def)
qed

text \<open>
  C3 as stated fails: a response delivered with HTTP success whose \<open>success\<close> flag is
  \<open>false\<close>, or absent, leaves the record marked paid, not pending.
\<close>

theorem C3_counterexample:
  "fst (periodicCheck ex_cfg
         (ex_world True (Resp (Some \<lparr>success = JBool False, txId = JUndefined, tx_id = JUndefined\<rparr>)))
         [ex_row])
     = [ex_row\<lparr>paid := 1, paid_at := Some 5000, payment_tx := None\<rparr>]
   \<and> fst (periodicCheck ex_cfg
         (ex_world True (Resp (Some \<lparr>success = JUndefined, txId = JUndefined, tx_id = JUndefined\<rparr>)))
         [ex_row])
     = [ex_row\<lparr>paid := 1, paid_at := Some 5000, payment_tx := None\<rparr>]"
  by (simp add: periodicCheck_def getUnpaid_eq select_unpaid_def process_row_def payViaCard_def
      txId_of_def js_or_def markPaid_eq update_paid_def ex_world_def ex_row_def)

text \<open>
  C4. On a ledger with at most one row per \<open>joined_id\<close>, inserting a pending record for
  the same \<open>joined_id\<close> twice (whatever the other values of the two inserts) leaves
  exactly one row for it; the second insert leaves the table as the first one left it,
  and its statement resolves without error.
\<close>

theorem C4_second_insert_is_noop:
  assumes "unique_joined t"
  shows "length (rows_for j (addPendingInviteRecord True now2 g2 c2 i2 j
                               (addPendingInviteRecord True now1 g1 c1 i1 j t))) = 1
       \<and> addPendingInviteRecord True now2 g2 c2 i2 j (addPendingInviteRecord True now1 g1 c1 i1 j t)
           = addPendingInviteRecord True now1 g1 c1 i1 j t
       \<and> db_run True
           (insert_or_ignore
              \<lparr>guild_id = g2, invite_code = (if c2 = [] then None else Some c2), inviter_id = i2,
               joined_id = j, joined_at = now2, paid = 0, paid_at = None, payment_tx = None\<rparr>)
           (addPendingInviteRecord True now1 g1 c1 i1 j t)
           = Inr (addPendingInviteRecord True now1 g1 c1 i1 j t)"
proof -
  let ?t1 = "addPendingInviteRecord True now1 g1 c1 i1 j t"
  let ?x = "\<lparr>guild_id = g2, invite_code = (if c2 = [] then None else Some c2), inviter_id = i2,
               joined_id = j, joined_at = now2, paid = 0, paid_at = None, payment_tx = None\<rparr>"
  have p: "j \<in> set (map joined_id ?t1)"
    by (rule joined_addPending)
  then have "joined_id ?x \<in> set (map joined_id ?t1)"
    by simp
  then have n: "insert_or_ignore ?x ?t1 = ?t1"
    by (rule insert_or_ignore_present)
  then have same: "addPendingInviteRecord True now2 g2 c2 i2 j ?t1 = ?t1"
    by (simp add: addPending_eq [of True now2 g2 c2 i2 j ?t1])
  have "unique_joined ?t1"
    using assms by (rule unique_addPending)
  then have "length (rows_for j ?t1) = 1"
    using p by (rule rows_for_length_one)
  with same n show ?thesis
    by (simp add: db_run_def)
qed

theorem C4_second_insert_is_noop_witness:
  "unique_joined []
   \<and> addPendingInviteRecord True 2000 ''g1'' ''A'' ''101'' ''200''
        (addPendingInviteRecord True 1000 ''g1'' ''B'' ''100'' ''200'' []) = [ex_row]
   \<and> length (rows_for ''200'' (addPendingInviteRecord True 2000 ''g1'' ''A'' ''101'' ''200''
        (addPendingInviteRecord True 1000 ''g1'' ''B'' ''100'' ''200'' []))) = 1"
proof -
  have h: "unique_joined []"
    by (simp add: unique_joined_def)
  have e: "addPendingInviteRecord True 1000 ''g1'' ''B'' ''100'' ''200'' [] = [ex_row]"
    by (simp add: addPending_eq insert_or_ignore_def ex_row_def)
  from C4_second_insert_is_noop [OF h, of "''200''" 2000 "''g1''" "''A''" "''101''" 1000 "''g1''" "''B''" "''100''"]
    h e show ?thesis
    by (simp add: rows_for_def ex_row_def)
qed

text \<open>
  C5. Let a pass process the pending row \<open>r\<close> while the guild does not resolve or the
  member is not in it, and let the delete statement run. Then after the pass the ledger
  has no row for \<open>r\<close>'s \<open>joined_id\<close> and the pass made no payment request for it; through
  later events that are not a join of that member no request is made for it either; and
  when the member joins again and the join is attributed, the ledger holds for that
  \<open>joined_id\<close> exactly one row, a pending one built from the new join alone (its guild,
  invite, inviter and time), with nothing of the deleted row.
\<close>

theorem C5_absent_member_forfeits:
  assumes "unique_joined t" and "r \<in> set (getUnpaidInvites (select_io w) 2000 t)"
    and "\<not> guild_found w r \<or> \<not> member_found w r" and "remove_io w r"
    and "\<forall>ev \<in> set evs. \<not> joins (joined_id r) ev"
    and "find_used
           (case invitesCache (fst (run cfg \<lparr>invitesCache = c, invite_rewards = fst (periodicCheck cfg w t)\<rparr> evs)) g of
              Some m0 \<Rightarrow> m0 | None \<Rightarrow> [])
           f (set_all [] f) = Some u"
  shows "rows_for (joined_id r) (fst (periodicCheck cfg w t)) = []
       \<and> calls_for (joined_id r) (snd (periodicCheck cfg w t)) = []
       \<and> calls_for (joined_id r)
           (snd (run cfg \<lparr>invitesCache = c, invite_rewards = fst (periodicCheck cfg w t)\<rparr> evs)) = []
       \<and> rows_for (joined_id r)
           (invite_rewards (guildMemberAdd g (joined_id r) (Some f) True now
              (fst (run cfg \<lparr>invitesCache = c, invite_rewards = fst (periodicCheck cfg w t)\<rparr> evs))))
           = [\<lparr>guild_id = g, invite_code = (if used_code u = [] then None else Some (used_code u)),
               inviter_id = inviter_or_unknown (used_inviterId u), joined_id = joined_id r,
               joined_at = now, paid = 0, paid_at = None, payment_tx = None\<rparr>]"
proof -
  let ?j = "joined_id r"
  let ?s = "\<lparr>invitesCache = c, invite_rewards = fst (periodicCheck cfg w t)\<rparr>"
  have gone: "rows_for ?j (fst (periodicCheck cfg w t)) = []"
    using assms(1-4) by (auto simp: pass_row(1) process_row_def remove_eq delete_joined_def)
  have quiet: "calls_for ?j (snd (periodicCheck cfg w t)) = []"
    using assms(1-4) by (auto simp: pass_row(2) process_row_def)
  from gone have "rows_for ?j (invite_rewards (fst (?s, []::pay_log))) = []"
    by simp
  from run_keeps_absent [OF this assms(5), of cfg]
  have later: "rows_for ?j (invite_rewards (fst (run cfg ?s evs))) = []"
    "calls_for ?j (snd (run cfg ?s evs)) = []"
    by (simp_all add: run_def calls_for_def)
  have "rows_for ?j (invite_rewards (guildMemberAdd g ?j (Some f) True now (fst (run cfg ?s evs))))
        = [\<lparr>guild_id = g, invite_code = (if used_code u = [] then None else Some (used_code u)),
               inviter_id = inviter_or_unknown (used_inviterId u), joined_id = ?j,
               joined_at = now, paid = 0, paid_at = None, payment_tx = None\<rparr>]"
    using later(1) by (simp add: ledger_guildMemberAdd_used [OF assms(6)] rows_for_addPending_new)
  with gone quiet later(2) show ?thesis by simp
qed

theorem C5_absent_member_forfeits_witness:
  "unique_joined [ex_row]
   \<and> ex_row \<in> set (getUnpaidInvites (select_io (ex_world False Threw)) 2000 [ex_row])
   \<and> \<not> member_found (ex_world False Threw) ex_row
   \<and> remove_io (ex_world False Threw) ex_row
   \<and> rows_for (joined_id ex_row) (fst (periodicCheck ex_cfg (ex_world False Threw) [ex_row])) = []
   \<and> calls_for (joined_id ex_row) (snd (periodicCheck ex_cfg (ex_world False Threw) [ex_row])) = []
   \<and> calls_for (joined_id ex_row)
        (snd (run ex_cfg
           \<lparr>invitesCache = Map.empty,
            invite_rewards = fst (periodicCheck ex_cfg (ex_world False Threw) [ex_row])\<rparr>
           [Tick (ex_world True (Resp None))])) = []
   \<and> rows_for (joined_id ex_row)
        (invite_rewards (guildMemberAdd ''g2'' (joined_id ex_row)
           (Some [\<lparr>code = ''C'', uses = Some 1, inviter = Some ''300''\<rparr>]) True 9000
           (fst (run ex_cfg
              \<lparr>invitesCache = Map.empty,
               invite_rewards = fst (periodicCheck ex_cfg (ex_world False Threw) [ex_row])\<rparr>
              [Tick (ex_world True (Resp None))]))))
     = [\<lparr>guild_id = ''g2'', invite_code = Some ''C'', inviter_id = ''300'', joined_id = ''200'',
         joined_at = 9000, paid = 0, paid_at = None, payment_tx = None\<rparr>]"
proof -
  let ?w = "ex_world False Threw"
  let ?evs = "[Tick (ex_world True (Resp None))]"
  let ?f = "[\<lparr>code = ''C'', uses = Some 1, inviter = Some ''300''\<rparr>]"
  let ?u = "\<lparr>used_code = ''C'', used_inviterId = Some ''300''\<rparr>"
  have h1: "unique_joined [ex_row]"
    by (simp add: unique_joined_def)
  have h2: "ex_row \<in> set (getUnpaidInvites (select_io ?w) 2000 [ex_row])"
    by (simp add: getUnpaid_eq select_unpaid_def ex_world_def ex_row_def)
  have h3: "\<not> guild_found ?w ex_row \<or> \<not> member_found ?w ex_row"
    by (simp add: ex_world_def)
  have h4: "remove_io ?w ex_row"
    by (simp add: ex_world_def)
  have h5: "\<forall>ev \<in> set ?evs. \<not> joins (joined_id ex_row) ev"
    by simp
  have h6: "find_used
       (case invitesCache (fst (run ex_cfg
                \<lparr>invitesCache = Map.empty,
                 invite_rewards = fst (periodicCheck ex_cfg ?w [ex_row])\<rparr> ?evs)) ''g2'' of
          Some m0 \<Rightarrow> m0 | None \<Rightarrow> [])
       ?f (set_all [] ?f) = Some ?u"
    by (simp add: run_def Let_def uses_or_0_def Map_get_def inviter_of_def)
  from C5_absent_member_forfeits [OF h1 h2 h3 h4 h5 h6, of 9000] h1 h2 h4 show ?thesis
    by (simp add: ex_world_def ex_row_def inviter_or_unknown_def)
qed

text \<open>
  C6, as the code has it. When the member is still present, the HTTP call delivers a
  response and the update runs, the record is marked paid, whatever the \<open>success\<close>
  flag and in particular when it is absent. Its \<open>payment_tx\<close> is the payload's \<open>txId\<close>
  if truthy, else its \<open>tx_id\<close> if truthy, else \<open>NULL\<close>; an empty body gives \<open>NULL\<close>.
\<close>

theorem C6_delivered_response_marks_paid:
  assumes "unique_joined t" and "r \<in> set (getUnpaidInvites (select_io w) 2000 t)"
    and "guild_found w r" and "member_found w r" and "http w r = Resp d" and "mark_io w r"
  shows "rows_for (joined_id r) (fst (periodicCheck cfg w t))
           = [r\<lparr>paid := 1, paid_at := Some (clock w r),
                payment_tx :=
                  (case d of
                     None \<Rightarrow> None
                   | Some p \<Rightarrow> (if truthy (txId p) then Some (txId p)
                                else if truthy (tx_id p) then Some (tx_id p) else None))\<rparr>]"
proof (cases d)
  case None
  with assms show ?thesis
    by (simp add: pass_row(1) process_row_def payViaCard_def markPaid_eq update_paid_def stored_tx)
next
  case (Some p)
  with assms show ?thesis
    by (simp add: pass_row(1) process_row_def payViaCard_def markPaid_eq update_paid_def stored_tx
        js_or_def)
qed

theorem C6_delivered_response_marks_paid_witness:
  "unique_joined [ex_row]
   \<and> ex_row \<in> set (getUnpaidInvites
        (select_io (ex_world True (Resp (Some \<lparr>success = JUndefined, txId = JUndefined, tx_id = JUndefined\<rparr>))))
        2000 [ex_row])
   \<and> rows_for ''200'' (fst (periodicCheck ex_cfg
        (ex_world True (Resp (Some \<lparr>success = JUndefined, txId = JUndefined, tx_id = JUndefined\<rparr>)))
        [ex_row]))
     = [ex_row\<lparr>paid := 1, paid_at := Some 5000, payment_tx := None\<rparr>]"
proof -
  let ?w = "ex_world True (Resp (Some \<lparr>success = JUndefined, txId = JUndefined, tx_id = JUndefined\<rparr>))"
  have h1: "unique_joined [ex_row]"
    by (simp add: unique_joined_def)
  have h2: "ex_row \<in> set (getUnpaidInvites (select_io ?w) 2000 [ex_row])"
    by (simp add: getUnpaid_eq select_unpaid_def ex_world_def ex_row_def)
  have h3: "guild_found ?w ex_row" "member_found ?w ex_row"
    "http ?w ex_row = Resp (Some \<lparr>success = JUndefined, txId = JUndefined, tx_id = JUndefined\<rparr>)"
    "mark_io ?w ex_row"
    by (simp_all add: ex_world_def)
  from C6_delivered_response_marks_paid [OF h1 h2 h3, of ex_cfg] h1 h2 show ?thesis
    by (simp add: ex_world_def ex_row_def)
qed

text \<open>
  C6 as stated fails: a payload without \<open>success\<close> flag that carries a \<open>txId\<close> is
  stored with that transaction id, not with \<open>NULL\<close>.
\<close>

theorem C6_counterexample:
  "fst (periodicCheck ex_cfg
         (ex_world True (Resp (Some \<lparr>success = JUndefined, txId = JStr ''tx1'', tx_id = JUndefined\<rparr>)))
         [ex_row])
     = [ex_row\<lparr>paid := 1, paid_at := Some 5000, payment_tx := Some (JStr ''tx1'')\<rparr>]"
  by (simp add: periodicCheck_def getUnpaid_eq select_unpaid_def process_row_def payViaCard_def
      txId_of_def js_or_def markPaid_eq update_paid_def ex_world_def ex_row_def)

text \<open>
  C7. From a ledger whose rows satisfy the lifecycle condition (a pending row has
  \<open>paid_at\<close> and \<open>payment_tx\<close> unset, every other row has \<open>paid = 1\<close>) and that has at most
  one row per \<open>joined_id\<close>, every sequence of \<open>insertPending\<close>, \<open>markPaid\<close> and \<open>delete\<close>
  operations, each with any arguments and with its statement running or rejected, leads
  to a ledger whose rows satisfy the condition; and there no single operation turns a
  paid row into a pending one: after it, every row with the \<open>joined_id\<close> of a row that
  was paid is paid.
\<close>

theorem C7_lifecycle_invariant:
  assumes "\<forall>r \<in> set t. lifecycle_ok r" and "unique_joined t"
  shows "(\<forall>r \<in> set (foldl apply_op t ops). lifecycle_ok r)
       \<and> (\<forall>r \<in> set (foldl apply_op t ops). \<forall>r' \<in> set (apply_op (foldl apply_op t ops) op).
            paid r = 1 \<and> joined_id r' = joined_id r \<longrightarrow> paid r' = 1)"
proof -
  from reachable_ledger [OF assms, of ops]
  have l: "\<forall>r \<in> set (foldl apply_op t ops). lifecycle_ok r"
    and u: "unique_joined (foldl apply_op t ops)"
    by simp_all
  from u have "\<forall>r \<in> set (foldl apply_op t ops). \<forall>r' \<in> set (apply_op (foldl apply_op t ops) op).
            paid r = 1 \<and> joined_id r' = joined_id r \<longrightarrow> paid r' = 1"
    by (auto dest: no_revert_apply_op)
  with l show ?thesis by simp
qed

theorem C7_lifecycle_invariant_witness:
  "unique_joined [ex_row] \<and> lifecycle_ok ex_row
   \<and> foldl apply_op [ex_row] [MarkPaid True 5000 ''200'' (JStr ''tx1'')]
        = [ex_row\<lparr>paid := 1, paid_at := Some 5000, payment_tx := Some (JStr ''tx1'')\<rparr>]
   \<and> lifecycle_ok (ex_row\<lparr>paid := 1, paid_at := Some 5000, payment_tx := Some (JStr ''tx1'')\<rparr>)
   \<and> list_all (\<lambda>r'. paid r' = 1)
        (apply_op (foldl apply_op [ex_row] [MarkPaid True 5000 ''200'' (JStr ''tx1'')])
           (InsertPending True 7000 ''g1'' ''B'' ''100'' ''200''))"
proof -
  let ?ops = "[MarkPaid True 5000 ''200'' (JStr ''tx1'')]"
  let ?op = "InsertPending True 7000 ''g1'' ''B'' ''100'' ''200''"
  let ?p = "ex_row\<lparr>paid := 1, paid_at := Some 5000, payment_tx := Some (JStr ''tx1'')\<rparr>"
  have h1: "\<forall>r \<in> set [ex_row]. lifecycle_ok r"
    by (simp add: lifecycle_ok_def ex_row_def)
  have h2: "unique_joined [ex_row]"
    by (simp add: unique_joined_def)
  have e: "foldl apply_op [ex_row] ?ops = [?p]"
    by (simp add: markPaid_eq update_paid_def ex_row_def)
  have e2: "apply_op [?p] ?op = [?p]"
    by (simp add: addPending_eq insert_or_ignore_def ex_row_def)
  from C7_lifecycle_invariant [OF h1 h2, of ?ops ?op]
  have "lifecycle_ok ?p" and "list_all (\<lambda>r'. paid r' = 1) (apply_op (foldl apply_op [ex_row] ?ops) ?op)"
    unfolding e e2 by simp_all
  with h1 h2 e show ?thesis by simp
qed

text \<open>
  C8. The claim, and the comment of the code (the total is \<open>totalPaidCount * WORTH\<close>,
  truncated to 8 decimals), say that the reported total is the exact product truncated
  to 8 decimal places. For \<open>WORTH = 0.00001000\<close> and a paid count of 3 (in one row or
  split over two) the code reports that value, 0.00003. For \<open>WORTH = 0.01\<close> and a paid
  count of 29 it does not: the binary64 product times \<open>100000000\<close> rounds to a number
  just below 29000000, \<open>Math.trunc\<close> gives 28999999 and the reply reports 0.28999999,
  while 29 times 0.01 truncated to 8 decimals is 0.29. Likewise one paid join at
  \<open>WORTH = 0.00000003\<close> is reported as 0.00000002.
\<close>

theorem C8_total_below_exact_truncation:
  "totalCoins (1 / 100) [29] = dbl (28999999 / 10 ^ 8)
   \<and> trunc_dec 8 (29 * (1 / 100)) = 29 / 100
   \<and> totalCoins (1 / 100) [29] \<noteq> dbl (trunc_dec 8 (29 * (1 / 100)))
   \<and> totalCoins (3 / 10 ^ 8) [1] = dbl (2 / 10 ^ 8)
   \<and> totalCoins (3 / 10 ^ 8) [1] \<noteq> dbl (trunc_dec 8 (1 * (3 / 10 ^ 8)))
   \<and> totalCoins (1 / 10 ^ 5) [3] = dbl (trunc_dec 8 (3 * (1 / 10 ^ 5)))
   \<and> totalCoins (1 / 10 ^ 5) [1, 2] = dbl (trunc_dec 8 (3 * (1 / 10 ^ 5)))
   \<and> trunc_dec 8 (3 * (1 / 10 ^ 5)) = 3 / 10 ^ 5"
proof (intro conjI)
  show "totalCoins (1 / 100) [29] = dbl (28999999 / 10 ^ 8)"
    by (simp add: total_eval dbl_eval)
  show "trunc_dec 8 (29 * (1 / 100)) = 29 / 100"
    by (simp add: trunc_dec_def floor_rat_numeral)
  show "totalCoins (1 / 100) [29] \<noteq> dbl (trunc_dec 8 (29 * (1 / 100)))"
    by (simp add: total_eval dbl_eval)
  show "totalCoins (3 / 10 ^ 8) [1] = dbl (2 / 10 ^ 8)"
    by (simp add: total_eval dbl_eval)
  show "totalCoins (3 / 10 ^ 8) [1] \<noteq> dbl (trunc_dec 8 (1 * (3 / 10 ^ 8)))"
    by (simp add: total_eval dbl_eval)
  show "totalCoins (1 / 10 ^ 5) [3] = dbl (trunc_dec 8 (3 * (1 / 10 ^ 5)))"
    by (simp add: total_eval dbl_eval)
  show "totalCoins (1 / 10 ^ 5) [1, 2] = dbl (trunc_dec 8 (3 * (1 / 10 ^ 5)))"
    by (simp add: total_eval dbl_eval)
  show "trunc_dec 8 (3 * (1 / 10 ^ 5)) = 3 / 10 ^ 5"
    by (simp add: trunc_dec_def floor_rat_numeral)
qed

text \<open>
  C9. When \<open>guild.invites.fetch()\<close> throws inside \<open>refreshGuildInvites\<close>, the cache entry
  of the guild becomes the empty map, whatever it was. At the next join, for a fetched
  list with pairwise distinct codes, the scan then returns the first invite of the list
  whose use count is positive, and the handler stores the pending record for that invite
  and its owner (or none when no invite has a positive count).
\<close>

theorem C9_failed_refresh_empties_snapshot:
  assumes "distinct (map code f)"
  shows "refreshGuildInvites g None cache = (cache(g \<mapsto> []), [])
       \<and> find_used (case fst (refreshGuildInvites g None cache) g of Some m0 \<Rightarrow> m0 | None \<Rightarrow> [])
           f (set_all [] f)
           = (case find (\<lambda>i. 0 < uses_or_0 (uses i)) f of
                None \<Rightarrow> None
              | Some i \<Rightarrow> Some \<lparr>used_code = code i, used_inviterId = inviter i\<rparr>)
       \<and> invite_rewards (guildMemberAdd g m (Some f) io now
            \<lparr>invitesCache = fst (refreshGuildInvites g None cache), invite_rewards = t\<rparr>)
           = (case find (\<lambda>i. 0 < uses_or_0 (uses i)) f of
                None \<Rightarrow> t
              | Some i \<Rightarrow>
                  addPendingInviteRecord io now g (code i) (inviter_or_unknown (inviter i)) m t)"
proof -
  have c: "fst (refreshGuildInvites g None cache) g = Some []"
    by (simp add: refreshGuildInvites_def)
  have "find (\<lambda>i. uses_or_0 (Map_get (set_all [] f) (code i)) > uses_or_0 (Map_get [] (code i))) f
          = find (\<lambda>i. 0 < uses_or_0 (uses i)) f"
    using assms
    by (intro find_cong refl) (simp add: count_in_fresh_map, simp add: Map_get_def uses_or_0_def)
  then have s: "find_used [] f (set_all [] f)
           = (case find (\<lambda>i. 0 < uses_or_0 (uses i)) f of
                None \<Rightarrow> None
              | Some i \<Rightarrow> Some \<lparr>used_code = code i, used_inviterId = inviter i\<rparr>)"
    by (simp add: scan_first_increase)
  show ?thesis
    by (simp add: c s guildMemberAdd_def Let_def refreshGuildInvites_def split: option.splits)
qed

theorem C9_failed_refresh_empties_snapshot_witness:
  "distinct (map code [\<lparr>code = ''A'', uses = Some 0, inviter = Some ''alice''\<rparr>,
                       \<lparr>code = ''B'', uses = Some 2, inviter = Some ''bob''\<rparr>,
                       \<lparr>code = ''C'', uses = Some 7, inviter = Some ''carol''\<rparr>])
   \<and> invite_rewards (guildMemberAdd ''g1'' ''200''
        (Some [\<lparr>code = ''A'', uses = Some 0, inviter = Some ''alice''\<rparr>,
               \<lparr>code = ''B'', uses = Some 2, inviter = Some ''bob''\<rparr>,
               \<lparr>code = ''C'', uses = Some 7, inviter = Some ''carol''\<rparr>]) True 1000
        \<lparr>invitesCache = fst (refreshGuildInvites ''g1'' None (Map.empty(''g1'' \<mapsto> [(''A'', 0), (''B'', 2), (''C'', 6)]))),
         invite_rewards = []\<rparr>)
     = [ex_row\<lparr>inviter_id := ''bob''\<rparr>]"
proof -
  let ?f = "[\<lparr>code = ''A'', uses = Some 0, inviter = Some ''alice''\<rparr>,
             \<lparr>code = ''B'', uses = Some 2, inviter = Some ''bob''\<rparr>,
             \<lparr>code = ''C'', uses = Some 7, inviter = Some ''carol''\<rparr>]"
  have h: "distinct (map code ?f)"
    by simp
  from C9_failed_refresh_empties_snapshot [OF h, of "''g1''" "Map.empty(''g1'' \<mapsto> [(''A'', 0), (''B'', 2), (''C'', 6)])" "''200''" True 1000 "[]"]
    h show ?thesis
    by (simp add: refreshGuildInvites_def uses_or_0_def addPending_eq insert_or_ignore_def
        inviter_or_unknown_def ex_row_def)
qed

text \<open>
  C10. When the scan returns an invite without owner (\<open>inviterId\<close> is \<open>null\<close>) and the
  member has no row yet, the handler stores the pending row \<open>r\<close> whose \<open>inviter_id\<close> is the
  string \<open>(unknown)\<close>; and a pass that selects \<open>r\<close> and finds guild and member makes
  exactly one payment request for it, with \<open>toId = (unknown)\<close>.
\<close>

theorem C10_unknown_inviter_is_paid:
  assumes "find_used (case invitesCache s g of Some m0 \<Rightarrow> m0 | None \<Rightarrow> []) f (set_all [] f) = Some u"
    and "used_inviterId u = None"
    and "rows_for m (invite_rewards s) = []"
    and "unique_joined t"
    and "r \<in> set (getUnpaidInvites (select_io w) 2000 t)"
    and "r = \<lparr>guild_id = g, invite_code = (if used_code u = [] then None else Some (used_code u)),
               inviter_id = ''(unknown)'', joined_id = m, joined_at = now,
               paid = 0, paid_at = None, payment_tx = None\<rparr>"
    and "guild_found w r" and "member_found w r"
  shows "rows_for m (invite_rewards (guildMemberAdd g m (Some f) True now s)) = [r]
       \<and> calls_for m (snd (periodicCheck cfg w t))
           = [(m, \<lparr>cardCode = RECEIVER_CARD cfg, toId = ''(unknown)'', amount = WORTH cfg\<rparr>)]"
proof
  show "rows_for m (invite_rewards (guildMemberAdd g m (Some f) True now s)) = [r]"
    using assms(2,3,6)
    by (simp add: ledger_guildMemberAdd_used [OF assms(1)] rows_for_addPending_new
        inviter_or_unknown_def)
  have j: "joined_id r = m" and i: "inviter_id r = ''(unknown)''"
    using assms(6) by simp_all
  from pass_row(2) [OF assms(4,5), of cfg] assms(7,8)
  show "calls_for m (snd (periodicCheck cfg w t))
           = [(m, \<lparr>cardCode = RECEIVER_CARD cfg, toId = ''(unknown)'', amount = WORTH cfg\<rparr>)]"
    unfolding j i
    by (auto simp: process_row_def Let_def j i split: sum.splits)
qed

theorem C10_unknown_inviter_is_paid_witness:
  "find_used (case invitesCache \<lparr>invitesCache = Map.empty, invite_rewards = []\<rparr> ''g1'' of
                Some m0 \<Rightarrow> m0 | None \<Rightarrow> [])
      [\<lparr>code = ''B'', uses = Some 3, inviter = None\<rparr>]
      (set_all [] [\<lparr>code = ''B'', uses = Some 3, inviter = None\<rparr>])
     = Some \<lparr>used_code = ''B'', used_inviterId = None\<rparr>
   \<and> rows_for ''200''
        (invite_rewards (guildMemberAdd ''g1'' ''200''
           (Some [\<lparr>code = ''B'', uses = Some 3, inviter = None\<rparr>]) True 1000
           \<lparr>invitesCache = Map.empty, invite_rewards = []\<rparr>))
     = [ex_row\<lparr>inviter_id := ''(unknown)''\<rparr>]
   \<and> calls_for ''200''
        (snd (periodicCheck ex_cfg (ex_world True (Resp None)) [ex_row\<lparr>inviter_id := ''(unknown)''\<rparr>]))
     = [(''200'', \<lparr>cardCode = ''card'', toId = ''(unknown)'', amount = ''0.00001000''\<rparr>)]"
proof -
  let ?s = "\<lparr>invitesCache = Map.empty, invite_rewards = []\<rparr>"
  let ?f = "[\<lparr>code = ''B'', uses = Some 3, inviter = None\<rparr>]"
  let ?u = "\<lparr>used_code = ''B'', used_inviterId = None\<rparr>"
  let ?r = "ex_row\<lparr>inviter_id := ''(unknown)''\<rparr>"
  let ?w = "ex_world True (Resp None)"
  have h1: "find_used (case invitesCache ?s ''g1'' of Some m0 \<Rightarrow> m0 | None \<Rightarrow> []) ?f (set_all [] ?f)
              = Some ?u"
    by (simp add: uses_or_0_def Map_get_def inviter_of_def)
  have h2: "used_inviterId ?u = None"
    by simp
  have h3: "rows_for ''200'' (invite_rewards ?s) = []"
    by (simp add: rows_for_def)
  have h4: "unique_joined [?r]"
    by (simp add: unique_joined_def)
  have h5: "?r \<in> set (getUnpaidInvites (select_io ?w) 2000 [?r])"
    by (simp add: getUnpaid_eq select_unpaid_def ex_world_def ex_row_def)
  have h6: "?r = \<lparr>guild_id = ''g1'',
               invite_code = (if used_code ?u = [] then None else Some (used_code ?u)),
               inviter_id = ''(unknown)'', joined_id = ''200'', joined_at = 1000,
               paid = 0, paid_at = None, payment_tx = None\<rparr>"
    by (simp add: ex_row_def)
  have h7: "guild_found ?w ?r" "member_found ?w ?r"
    by (simp_all add: ex_world_def)
  from C10_unknown_inviter_is_paid [OF h1 h2 h3 h4 h5 h6 h7, of ex_cfg] h1 show ?thesis
    by (simp add: ex_cfg_def)
qed

end
